theory Spec2Isabelle
  imports Complex_Main
begin

section \<open>Non-uniform variate generators of \<^verbatim>\<open>random/floats.py\<close>\<close>

text \<open>
  The module holds methods of a generator object: each takes \<^verbatim>\<open>self\<close>, draws
  uniform numbers with \<^verbatim>\<open>self.random()\<close> and, in \<^verbatim>\<open>gauss\<close>, reads and writes
  the attribute \<^verbatim>\<open>self.gauss_next\<close>.

  Modelling decisions.
  \<^item> Python floats are modelled as the real numbers: arithmetic is exact, there is no
    rounding, no overflow, no infinity and no NaN. Every statement below is about
    that idealisation.
  \<^item> \<^verbatim>\<open>self.random\<close> is not part of the module. It is a parameter of the model: an
    infinite sequence \<open>source\<close> of reals and the index \<open>pos\<close> of the next value to
    hand out, so \<open>pos\<close> counts the draws taken so far. The contract of the source
    (values in the half-open unit interval) is the predicate \<open>uniform01\<close>; the
    functions themselves do not assume it.
  \<^item> An exception is a value \<open>Inl e\<close>. The object outlives the exception, so every
    function returns the generator state next to its outcome.
  \<^item> A loop is a recursive function on a bound \<open>fuel\<close> for the number of its
    iterations; \<open>None\<close> says that the loop did not leave within that bound.
\<close>

subsection \<open>Exceptions and the fallible float primitives\<close>

datatype error =
    ValueError string
  | ZeroDivisionError
  | NotReal

text \<open>The one exception the module raises itself, in \<^verbatim>\<open>gammavariate\<close>.\<close>

definition invalid_argument :: error where
  "invalid_argument = ValueError ''gammavariate: alpha and beta must be > 0.0''"

type_synonym 'a result = "error + 'a"

definition bindE :: "'a result \<Rightarrow> ('a \<Rightarrow> 'b result) \<Rightarrow> 'b result" where
  "bindE m f = (case m of Inl e \<Rightarrow> Inl e | Inr x \<Rightarrow> f x)"

text \<open>Float division \<^verbatim>\<open>x / y\<close> raises \<^verbatim>\<open>ZeroDivisionError\<close> on a zero divisor.\<close>

definition py_div :: "real \<Rightarrow> real \<Rightarrow> real result" where
  "py_div x y = (if y = 0 then Inl ZeroDivisionError else Inr (x / y))"

text \<open>Float remainder \<^verbatim>\<open>x % y\<close>: the result has the sign of the divisor.\<close>

definition py_mod :: "real \<Rightarrow> real \<Rightarrow> real result" where
  "py_mod x y = (if y = 0 then Inl ZeroDivisionError else Inr (x - y * of_int \<lfloor>x / y\<rfloor>))"

text \<open>\<^verbatim>\<open>math.log\<close>, \<^verbatim>\<open>math.sqrt\<close> and \<^verbatim>\<open>math.acos\<close> raise
  \<^verbatim>\<open>ValueError('math domain error')\<close> outside their domains.\<close>

definition py_log :: "real \<Rightarrow> real result" where
  "py_log x = (if x \<le> 0 then Inl (ValueError ''math domain error'') else Inr (ln x))"

definition py_sqrt :: "real \<Rightarrow> real result" where
  "py_sqrt x = (if x < 0 then Inl (ValueError ''math domain error'') else Inr (sqrt x))"

definition py_acos :: "real \<Rightarrow> real result" where
  "py_acos x =
     (if x < - 1 \<or> 1 < x then Inl (ValueError ''math domain error'') else Inr (arccos x))"

text \<open>
  Float power \<^verbatim>\<open>x ** y\<close>. Anything to the power zero is one; zero to a negative power
  raises \<^verbatim>\<open>ZeroDivisionError\<close>; a negative base with an exponent that is not a whole
  number has no real value (CPython answers with a complex number, MicroPython
  without complex support raises), which the model marks \<open>NotReal\<close>.
\<close>

definition py_pow :: "real \<Rightarrow> real \<Rightarrow> real result" where
  "py_pow x y =
     (if y = 0 then Inr 1
      else if x = 0 then (if y < 0 then Inl ZeroDivisionError else Inr 0)
      else if 0 < x then Inr (x powr y)
      else if of_int \<lfloor>y\<rfloor> \<noteq> y then Inl NotReal
      else if even \<lfloor>y\<rfloor> then Inr ((- x) powr y)
      else Inr (- ((- x) powr y)))"

subsection \<open>Module constants\<close>

definition TWOPI :: real where
  "TWOPI = 2 * pi"

definition LOG4 :: real where
  "LOG4 = ln 4"

definition SG_MAGICCONST :: real where
  "SG_MAGICCONST = 1 + ln 4.5"

subsection \<open>The generator object\<close>

record rng =
  source :: "nat \<Rightarrow> real"
  pos :: nat
  gauss_next :: "real option"

text \<open>\<^verbatim>\<open>self.random()\<close>: hand out the next value of the source.\<close>

definition random_draw :: "rng \<Rightarrow> real \<times> rng" where
  "random_draw s = (source s (pos s), s\<lparr>pos := Suc (pos s)\<rparr>)"

text \<open>The contract of the uniform source: every value lies in \<open>[0, 1)\<close>.\<close>

definition uniform01 :: "rng \<Rightarrow> bool" where
  "uniform01 s \<longleftrightarrow> (\<forall>i. 0 \<le> source s i \<and> source s i < 1)"

type_synonym outcome = "real result \<times> rng"

text \<open>
  A mocked source for concrete runs: it replays the given values and then goes on
  with \<open>1/2\<close>. \<open>fresh_generator\<close> is a new object on such a source: no draw taken,
  no cached Gaussian value.
\<close>

definition replay :: "real list \<Rightarrow> nat \<Rightarrow> real" where
  "replay xs i = (if i < length xs then xs ! i else 1 / 2)"

definition fresh_generator :: "real list \<Rightarrow> rng" where
  "fresh_generator xs = \<lparr>source = replay xs, pos = 0, gauss_next = None\<rparr>"

subsection \<open>triangular\<close>

text \<open>\<^verbatim>\<open>mode=None\<close> is \<open>None\<close>; the defaults \<^verbatim>\<open>low=0.0, high=1.0\<close> are passed by
  the caller.\<close>

definition triangular :: "real \<Rightarrow> real \<Rightarrow> real option \<Rightarrow> rng \<Rightarrow> outcome" where
  "triangular low high mode s =
     (let (u, s1) = random_draw s in
      case (case mode of None \<Rightarrow> Inr 0.5 | Some m \<Rightarrow> py_div (m - low) (high - low)) of
        Inl e \<Rightarrow> (Inl e, s1)
      | Inr c \<Rightarrow>
          let (u', c', low', high') =
                (if u > c then (1 - u, 1 - c, high, low) else (u, c, low, high))
          in (bindE (py_pow (u' * c') 0.5) (\<lambda>q. Inr (low' + (high' - low') * q)), s1))"

subsection \<open>expovariate\<close>

text \<open>\<^verbatim>\<open>while u <= 1e-7: u = random()\<close>, entered with the first draw \<open>u\<close>.\<close>

fun expovariate_loop :: "nat \<Rightarrow> real \<Rightarrow> rng \<Rightarrow> (real \<times> rng) option" where
  "expovariate_loop 0 u s = (if u \<le> 0.0000001 then None else Some (u, s))"
| "expovariate_loop (Suc n) u s =
     (if u \<le> 0.0000001
      then (let (u', s') = random_draw s in expovariate_loop n u' s')
      else Some (u, s))"

definition expovariate :: "nat \<Rightarrow> real \<Rightarrow> rng \<Rightarrow> outcome option" where
  "expovariate fuel lambd s =
     (let (u, s1) = random_draw s in
      case expovariate_loop fuel u s1 of
        None \<Rightarrow> None
      | Some (u', s') \<Rightarrow> Some (bindE (py_log u') (\<lambda>l. py_div (- l) lambd), s'))"

subsection \<open>vonmisesvariate\<close>

text \<open>The rejection loop; it leaves with the accepted \<open>f\<close>.\<close>

fun vonmises_loop :: "nat \<Rightarrow> real \<Rightarrow> real \<Rightarrow> rng \<Rightarrow> outcome option" where
  "vonmises_loop 0 kappa r s = None"
| "vonmises_loop (Suc n) kappa r s =
     (let (u1, s1) = random_draw s;
          z = cos (pi * u1)
      in case py_div (1 + r * z) (r + z) of
           Inl e \<Rightarrow> Some (Inl e, s1)
         | Inr f \<Rightarrow>
             let c = kappa * (r - f);
                 (u2, s2) = random_draw s1
             in if u2 < c * (2 - c) \<or> u2 \<le> c * exp (1 - c)
                then Some (Inr f, s2)
                else vonmises_loop n kappa r s2)"

definition vonmisesvariate :: "nat \<Rightarrow> real \<Rightarrow> real \<Rightarrow> rng \<Rightarrow> outcome option" where
  "vonmisesvariate fuel mu kappa s =
     (if kappa \<le> 0.000001
      then (let (u, s1) = random_draw s in Some (Inr (TWOPI * u), s1))
      else
        case bindE (py_sqrt (1 + 4 * kappa * kappa)) (\<lambda>q1.
               let a = 1 + q1 in
               bindE (py_sqrt (2 * a)) (\<lambda>q2.
               bindE (py_div (a - q2) (2 * kappa)) (\<lambda>b.
               py_div (1 + b * b) (2 * b)))) of
          Inl e \<Rightarrow> Some (Inl e, s)
        | Inr r \<Rightarrow>
            (case vonmises_loop fuel kappa r s of
               None \<Rightarrow> None
             | Some (Inl e, s') \<Rightarrow> Some (Inl e, s')
             | Some (Inr f, s') \<Rightarrow>
                 let (u3, s3) = random_draw s' in
                 Some (bindE (py_mod mu TWOPI) (\<lambda>m.
                       bindE (py_acos f) (\<lambda>ac.
                       Inr (if u3 > 0.5 then m + ac else m - ac))), s3)))"

subsection \<open>gammavariate\<close>

text \<open>Cheng's loop for \<^verbatim>\<open>alpha > 1.0\<close>. The second test of the \<^verbatim>\<open>or\<close> is evaluated
  only when the first fails.\<close>

fun gamma_cheng_loop ::
  "nat \<Rightarrow> real \<Rightarrow> real \<Rightarrow> real \<Rightarrow> real \<Rightarrow> real \<Rightarrow> rng \<Rightarrow> outcome option" where
  "gamma_cheng_loop 0 alpha beta ainv bbb ccc s = None"
| "gamma_cheng_loop (Suc n) alpha beta ainv bbb ccc s =
     (let (u1, s1) = random_draw s in
      if \<not> (0.0000001 < u1 \<and> u1 < 0.9999999)
      then gamma_cheng_loop n alpha beta ainv bbb ccc s1
      else
        let (r0, s2) = random_draw s1;
            u2 = 1 - r0
        in case bindE (py_div u1 (1 - u1)) (\<lambda>q. bindE (py_log q) (\<lambda>l. py_div l ainv)) of
             Inl e \<Rightarrow> Some (Inl e, s2)
           | Inr v \<Rightarrow>
               let x = alpha * exp v;
                   z = u1 * u1 * u2;
                   r = bbb + ccc * v - x
               in if r + SG_MAGICCONST - 4.5 * z \<ge> 0
                  then Some (Inr (x * beta), s2)
                  else (case py_log z of
                          Inl e \<Rightarrow> Some (Inl e, s2)
                        | Inr lz \<Rightarrow>
                            if r \<ge> lz
                            then Some (Inr (x * beta), s2)
                            else gamma_cheng_loop n alpha beta ainv bbb ccc s2))"

text \<open>The inlined copy of the exponential loop, for \<^verbatim>\<open>alpha == 1.0\<close>.\<close>

fun gamma_exp_loop :: "nat \<Rightarrow> real \<Rightarrow> rng \<Rightarrow> (real \<times> rng) option" where
  "gamma_exp_loop 0 u s = (if u \<le> 0.0000001 then None else Some (u, s))"
| "gamma_exp_loop (Suc n) u s =
     (if u \<le> 0.0000001
      then (let (u', s') = random_draw s in gamma_exp_loop n u' s')
      else Some (u, s))"

text \<open>Algorithm GS for \<^verbatim>\<open>0 < alpha < 1\<close>.\<close>

fun gamma_gs_loop :: "nat \<Rightarrow> real \<Rightarrow> real \<Rightarrow> rng \<Rightarrow> outcome option" where
  "gamma_gs_loop 0 alpha beta s = None"
| "gamma_gs_loop (Suc n) alpha beta s =
     (let (u, s1) = random_draw s in
      case bindE (py_div (exp 1 + alpha) (exp 1)) (\<lambda>b.
             let p = b * u in
             bindE (if p \<le> 1
                    then bindE (py_div 1 alpha) (\<lambda>e. py_pow p e)
                    else bindE (py_div (b - p) alpha) (\<lambda>q.
                         bindE (py_log q) (\<lambda>l. Inr (- l)))) (\<lambda>x.
             Inr (p, x))) of
        Inl e \<Rightarrow> Some (Inl e, s1)
      | Inr (p, x) \<Rightarrow>
          let (u1, s2) = random_draw s1 in
          if p > 1
          then (case py_pow x (alpha - 1) of
                  Inl e \<Rightarrow> Some (Inl e, s2)
                | Inr t \<Rightarrow>
                    if u1 \<le> t then Some (Inr (x * beta), s2)
                    else gamma_gs_loop n alpha beta s2)
          else if u1 \<le> exp (- x) then Some (Inr (x * beta), s2)
          else gamma_gs_loop n alpha beta s2)"

definition gammavariate :: "nat \<Rightarrow> real \<Rightarrow> real \<Rightarrow> rng \<Rightarrow> outcome option" where
  "gammavariate fuel alpha beta s =
     (if alpha \<le> 0 \<or> beta \<le> 0
      then Some (Inl invalid_argument, s)
      else if alpha > 1 then
        (case py_sqrt (2 * alpha - 1) of
           Inl e \<Rightarrow> Some (Inl e, s)
         | Inr ainv \<Rightarrow> gamma_cheng_loop fuel alpha beta ainv (alpha - LOG4) (alpha + ainv) s)
      else if alpha = 1 then
        (let (u, s1) = random_draw s in
         case gamma_exp_loop fuel u s1 of
           None \<Rightarrow> None
         | Some (u', s') \<Rightarrow> Some (bindE (py_log u') (\<lambda>l. Inr (- l * beta)), s'))
      else gamma_gs_loop fuel alpha beta s)"

subsection \<open>gauss\<close>

definition gauss :: "real \<Rightarrow> real \<Rightarrow> rng \<Rightarrow> outcome" where
  "gauss mu sigma s =
     (let z = gauss_next s;
          s0 = s\<lparr>gauss_next := None\<rparr>
      in case z of
           Some z' \<Rightarrow> (Inr (mu + z' * sigma), s0)
         | None \<Rightarrow>
             let (r1, s1) = random_draw s0;
                 x2pi = r1 * TWOPI;
                 (r2, s2) = random_draw s1
             in (case bindE (py_log (1 - r2)) (\<lambda>l. py_sqrt (- 2 * l)) of
                   Inl e \<Rightarrow> (Inl e, s2)
                 | Inr g2rad \<Rightarrow>
                     (Inr (mu + cos x2pi * g2rad * sigma),
                      s2\<lparr>gauss_next := Some (sin x2pi * g2rad)\<rparr>)))"

subsection \<open>betavariate\<close>

definition betavariate :: "nat \<Rightarrow> real \<Rightarrow> real \<Rightarrow> rng \<Rightarrow> outcome option" where
  "betavariate fuel alpha beta s =
     (case gammavariate fuel alpha 1 s of
        None \<Rightarrow> None
      | Some (Inl e, s1) \<Rightarrow> Some (Inl e, s1)
      | Some (Inr y, s1) \<Rightarrow>
          if y = 0 then Some (Inr 0, s1)
          else
            (case gammavariate fuel beta 1 s1 of
               None \<Rightarrow> None
             | Some (Inl e, s2) \<Rightarrow> Some (Inl e, s2)
             | Some (Inr g, s2) \<Rightarrow> Some (py_div y (y + g), s2)))"

section \<open>Properties\<close>

subsection \<open>Auxiliary facts\<close>

lemma bindE_simps [simp]:
  "bindE (Inl e) f = Inl e"
  "bindE (Inr x) f = f x"
  by (simp_all add: bindE_def)

lemma uniform01_fresh_generator:
  "(\<forall>x \<in> set xs. 0 \<le> x \<and> x < 1) \<Longrightarrow> uniform01 (fresh_generator xs)"
  by (simp add: uniform01_def fresh_generator_def replay_def)

lemma gamma_exp_loop_eq: "gamma_exp_loop n u s = expovariate_loop n u s"
  by (induction n arbitrary: u s) (auto split: prod.splits)

subsection \<open>The exponential branch of gammavariate\<close>

text \<open>
  Claim C6. On every sequence of uniform draws and for every bound on the loop,
  \<^verbatim>\<open>gammavariate(1.0, 1.0)\<close> and \<^verbatim>\<open>expovariate(1.0)\<close> have the same outcome and leave
  the generator in the same state, so they take the same draws: the branch
  \<^verbatim>\<open>alpha == 1.0\<close> repeats the loop of \<^verbatim>\<open>expovariate\<close>.
\<close>

theorem gammavariate_one_one_eq_expovariate_one:
  "gammavariate fuel 1 1 s = expovariate fuel 1 s"
  by (simp add: gammavariate_def expovariate_def gamma_exp_loop_eq py_div_def py_log_def
      split: prod.splits option.splits)

theorem gammavariate_one_one_eq_expovariate_one_witness:
  "gammavariate (Suc 0) 1 1 (fresh_generator [0, 1/4]) =
     Some (Inr (ln 4), fresh_generator [0, 1/4]\<lparr>pos := 2\<rparr>)"
  using gammavariate_one_one_eq_expovariate_one [of "Suc 0" "fresh_generator [0, 1/4]"]
  by (simp add: expovariate_def random_draw_def fresh_generator_def replay_def
      py_log_def py_div_def ln_div)

subsection \<open>vonmisesvariate at negligible concentration\<close>

text \<open>
  Claim C9. For every \<open>mu\<close> and every \<open>kappa\<close> with \<open>0 \<le> kappa \<le> 1e-6\<close>,
  \<^verbatim>\<open>vonmisesvariate(mu, kappa)\<close> takes exactly one draw \<open>u\<close> and returns \<open>2 * pi * u\<close>,
  which lies in \<open>[0, 2 * pi)\<close> when the source keeps its contract. The outcome is the
  same for any other \<open>mu'\<close> and with no loop iteration allowed at all, so it does not
  depend on \<open>mu\<close> and the rejection loop is not entered.
\<close>

theorem vonmisesvariate_small_kappa:
  assumes "0 \<le> kappa" and "kappa \<le> 0.000001" and "uniform01 s"
  shows "vonmisesvariate fuel mu kappa s =
           Some (Inr (2 * pi * source s (pos s)), s\<lparr>pos := Suc (pos s)\<rparr>)
         \<and> 0 \<le> 2 * pi * source s (pos s) \<and> 2 * pi * source s (pos s) < 2 * pi
         \<and> vonmisesvariate fuel mu kappa s = vonmisesvariate 0 mu' kappa s"
  using assms by (simp add: vonmisesvariate_def random_draw_def TWOPI_def uniform01_def)

theorem vonmisesvariate_small_kappa_witness:
  "vonmisesvariate 0 1 0 (fresh_generator [1/4]) =
     Some (Inr (pi / 2), fresh_generator [1/4]\<lparr>pos := 1\<rparr>)"
  using vonmisesvariate_small_kappa [of 0 "fresh_generator [1/4]" 0 1 1]
    uniform01_fresh_generator [of "[1/4]"]
  by (simp add: fresh_generator_def replay_def)

subsection \<open>triangular on an empty range\<close>

text \<open>
  Claim C10. When \<open>low = high\<close>: with the mode absent, \<^verbatim>\<open>triangular(low, high)\<close>
  returns \<open>low\<close> after its one draw (taken from \<open>[0, 1)\<close>); with a mode supplied, it
  raises \<^verbatim>\<open>ZeroDivisionError\<close> after its one draw, whatever the mode and the draw.
\<close>

theorem triangular_low_eq_high:
  "(0 \<le> source s (pos s) \<and> source s (pos s) < 1 \<longrightarrow>
      triangular low low None s = (Inr low, s\<lparr>pos := Suc (pos s)\<rparr>))
   \<and> triangular low low (Some m) s = (Inl ZeroDivisionError, s\<lparr>pos := Suc (pos s)\<rparr>)"
  by (simp add: triangular_def random_draw_def py_pow_def py_div_def)

theorem triangular_low_eq_high_witness:
  "triangular 3 3 None (fresh_generator [3/4]) = (Inr 3, fresh_generator [3/4]\<lparr>pos := 1\<rparr>)
   \<and> triangular 3 3 (Some 3) (fresh_generator [3/4]) =
       (Inl ZeroDivisionError, fresh_generator [3/4]\<lparr>pos := 1\<rparr>)"
  using triangular_low_eq_high [of "fresh_generator [3/4]" 3 3]
  by (simp add: fresh_generator_def replay_def)

subsection \<open>triangular stays in its range\<close>

lemma py_pow_half_unit:
  assumes "0 \<le> a" and "a \<le> 1"
  shows "\<exists>q. py_pow a 0.5 = Inr q \<and> 0 \<le> q \<and> q \<le> 1"
proof (cases "a = 0")
  case True
  then show ?thesis by (simp add: py_pow_def)
next
  case False
  with assms have "0 < a" by simp
  moreover have "a powr 0.5 \<le> 1"
    using assms by (intro powr_le1) auto
  ultimately show ?thesis by (simp add: py_pow_def)
qed

lemma unit_prod: "0 \<le> (a::real) \<Longrightarrow> a \<le> 1 \<Longrightarrow> 0 \<le> b \<Longrightarrow> b \<le> 1 \<Longrightarrow> 0 \<le> a * b \<and> a * b \<le> 1"
  by (simp add: mult_le_one)

lemma interp_up: "low < high \<Longrightarrow> 0 \<le> q \<Longrightarrow> q \<le> 1 \<Longrightarrow> low \<le> low + (high - low) * q \<and> low + (high - low) * q \<le> (high::real)"
proof -
  assume a: "low < high" "0 \<le> q" "q \<le> 1"
  have "(high - low) * q \<le> (high - low) * 1" using a by (intro mult_left_mono) auto
  moreover have "0 \<le> (high - low) * q" using a by simp
  ultimately show ?thesis by simp
qed

lemma interp_down: "low < high \<Longrightarrow> 0 \<le> q \<Longrightarrow> q \<le> 1 \<Longrightarrow> low \<le> high + (low - high) * q \<and> high + (low - high) * q \<le> (high::real)"
proof -
  assume a: "low < high" "0 \<le> q" "q \<le> 1"
  have "high + (low - high) * q = high - (high - low) * q" by (simp add: algebra_simps)
  moreover have "(high - low) * q \<le> (high - low) * 1" using a by (intro mult_left_mono) auto
  moreover have "0 \<le> (high - low) * q" using a by simp
  ultimately show ?thesis by simp
qed

lemma triangular_reflected:
  assumes "low < high" and "0 \<le> c" and "c \<le> 1" and "0 \<le> u" and "u < 1"
  shows "\<exists>q. py_pow ((1 - u) * (1 - c)) 0.5 = Inr q
             \<and> low \<le> high + (low - high) * q \<and> high + (low - high) * q \<le> high"
proof -
  have "0 \<le> (1 - u) * (1 - c) \<and> (1 - u) * (1 - c) \<le> 1"
    using assms by (intro unit_prod) auto
  then obtain q where q: "py_pow ((1 - u) * (1 - c)) 0.5 = Inr q" "0 \<le> q" "q \<le> 1"
    using py_pow_half_unit by blast
  with interp_down [OF assms(1) q(2,3)] show ?thesis by blast
qed

lemma triangular_direct:
  assumes "low < high" and "0 \<le> c" and "c \<le> 1" and "0 \<le> u" and "u < 1"
  shows "\<exists>q. py_pow (u * c) 0.5 = Inr q
             \<and> low \<le> low + (high - low) * q \<and> low + (high - low) * q \<le> high"
proof -
  have "0 \<le> u * c \<and> u * c \<le> 1"
    using assms by (intro unit_prod) auto
  then obtain q where q: "py_pow (u * c) 0.5 = Inr q" "0 \<le> q" "q \<le> 1"
    using py_pow_half_unit by blast
  with interp_up [OF assms(1) q(2,3)] show ?thesis by blast
qed

text \<open>
  The range of \<^verbatim>\<open>triangular\<close> in exact arithmetic. For \<open>low < high\<close>, a mode in
  \<open>[low, high]\<close> or no mode, and a draw in \<open>[0, 1)\<close>, \<^verbatim>\<open>triangular(low, high, mode)\<close>
  returns a value in \<open>[min low high, max low high] = [low, high]\<close>, and the generator
  has handed out exactly one value; the function has no loop.

  Claim C8 bounds the double the code returns. At the ends of the range the rounded
  sum \<^verbatim>\<open>low + (high - low) * q\<close> can leave \<open>[low, high]\<close> by a rounding error, which
  exact reals do not show, so claim C8 is not stated in this model; the theorem below
  is its exact-arithmetic counterpart only.
\<close>

theorem triangular_in_range:
  assumes lh: "low < high"
    and md: "case mode of None \<Rightarrow> True | Some m \<Rightarrow> low \<le> m \<and> m \<le> high"
    and u0: "0 \<le> source s (pos s)" and u1: "source s (pos s) < 1"
  shows "\<exists>r. triangular low high mode s = (Inr r, s\<lparr>pos := Suc (pos s)\<rparr>)
             \<and> min low high \<le> r \<and> r \<le> max low high
             \<and> min low high = low \<and> max low high = high"
proof -
  define u where "u = source s (pos s)"
  define c where "c = (case mode of None \<Rightarrow> 0.5 | Some m \<Rightarrow> (m - low) / (high - low))"
  have ratio: "(case mode of None \<Rightarrow> Inr 0.5 | Some m \<Rightarrow> py_div (m - low) (high - low)) = Inr c"
    using lh by (simp add: c_def py_div_def split: option.splits)
  have c: "0 \<le> c" "c \<le> 1"
    using lh md by (simp_all add: c_def split: option.splits)
  have u: "0 \<le> u" "u < 1"
    using u0 u1 by (simp_all add: u_def)
  have call: "triangular low high mode s =
      (if u > c
       then bindE (py_pow ((1 - u) * (1 - c)) 0.5) (\<lambda>q. Inr (high + (low - high) * q))
       else bindE (py_pow (u * c) 0.5) (\<lambda>q. Inr (low + (high - low) * q)),
       s\<lparr>pos := Suc (pos s)\<rparr>)"
    unfolding triangular_def random_draw_def u_def [symmetric]
    by (simp only: ratio Let_def split: prod.splits sum.splits) simp
  have mm: "min low high = low" "max low high = high"
    using lh by simp_all
  show ?thesis
  proof (cases "u > c")
    case True
    from triangular_reflected [OF lh c u] obtain q where
      "py_pow ((1 - u) * (1 - c)) 0.5 = Inr q"
      "low \<le> high + (low - high) * q" "high + (low - high) * q \<le> high"
      by blast
    with True show ?thesis
      unfolding call mm by (simp add: bindE_def)
  next
    case False
    from triangular_direct [OF lh c u] obtain q where
      "py_pow (u * c) 0.5 = Inr q"
      "low \<le> low + (high - low) * q" "low + (high - low) * q \<le> high"
      by blast
    with False show ?thesis
      unfolding call mm by (simp add: bindE_def)
  qed
qed

theorem triangular_in_range_witness:
  "\<exists>r. triangular 0 1 (Some (1/2)) (fresh_generator [1/4]) = (Inr r, fresh_generator [1/4]\<lparr>pos := 1\<rparr>)
        \<and> 0 \<le> r \<and> r \<le> 1"
  using triangular_in_range [of 0 1 "Some (1/2)" "fresh_generator [1/4]"]
  by (simp add: fresh_generator_def replay_def)

subsection \<open>gauss and its cached value\<close>

lemma box_muller_radius:
  assumes "0 \<le> y" and "y < 1"
  shows "bindE (py_log (1 - y)) (\<lambda>l. py_sqrt (- 2 * l)) = Inr (sqrt (- 2 * ln (1 - y)))"
proof -
  have "ln (1 - y) \<le> 0" using assms by simp
  then have "\<not> - 2 * ln (1 - y) < 0" by simp
  then show ?thesis using assms by (simp add: py_log_def py_sqrt_def del: mult_minus_left)
qed

text \<open>
  Claim C3. On a generator with no cached value, with \<open>x\<close> the next value of the
  source and \<open>y\<close> the one after it (in \<open>[0, 1)\<close>), \<^verbatim>\<open>gauss(mu, sigma)\<close> returns
  \<open>mu + cos (2 * pi * x) * sqrt (- 2 * ln (1 - y)) * sigma\<close>, has taken two draws and
  caches \<open>sin (2 * pi * x) * sqrt (- 2 * ln (1 - y))\<close>; the call that follows returns
  \<open>mu\<close> plus the cached value times \<open>sigma\<close>, takes no draw (two in total) and
  leaves the cache empty.
\<close>

theorem gauss_pair_two_draws:
  assumes fresh: "gauss_next s = None"
    and y0: "0 \<le> source s (Suc (pos s))" and y1: "source s (Suc (pos s)) < 1"
  shows "gauss mu sigma s =
           (Inr (mu + cos (2 * pi * source s (pos s))
                        * sqrt (- 2 * ln (1 - source s (Suc (pos s)))) * sigma),
            s\<lparr>pos := pos s + 2,
               gauss_next := Some (sin (2 * pi * source s (pos s))
                                    * sqrt (- 2 * ln (1 - source s (Suc (pos s)))))\<rparr>)
       \<and> gauss mu sigma (snd (gauss mu sigma s)) =
           (Inr (mu + sin (2 * pi * source s (pos s))
                        * sqrt (- 2 * ln (1 - source s (Suc (pos s)))) * sigma),
            s\<lparr>pos := pos s + 2, gauss_next := None\<rparr>)"
proof -
  have first: "gauss mu sigma s =
           (Inr (mu + cos (2 * pi * source s (pos s))
                        * sqrt (- 2 * ln (1 - source s (Suc (pos s)))) * sigma),
            s\<lparr>pos := pos s + 2,
               gauss_next := Some (sin (2 * pi * source s (pos s))
                                    * sqrt (- 2 * ln (1 - source s (Suc (pos s)))))\<rparr>)"
    using fresh box_muller_radius [OF y0 y1]
    by (simp add: gauss_def random_draw_def TWOPI_def Let_def mult.commute del: mult_minus_left)
  show ?thesis
    unfolding first by (simp add: first gauss_def)
qed

theorem gauss_pair_two_draws_witness:
  "gauss 1 2 (fresh_generator [1/4, 1/2]) =
     (Inr (1 + cos (2 * pi * (1/4)) * sqrt (- 2 * ln (1 - 1/2)) * 2),
      fresh_generator [1/4, 1/2]
        \<lparr>pos := 2, gauss_next := Some (sin (2 * pi * (1/4)) * sqrt (- 2 * ln (1 - 1/2)))\<rparr>)
   \<and> gauss 1 2 (snd (gauss 1 2 (fresh_generator [1/4, 1/2]))) =
     (Inr (1 + sin (2 * pi * (1/4)) * sqrt (- 2 * ln (1 - 1/2)) * 2),
      fresh_generator [1/4, 1/2]\<lparr>pos := 2\<rparr>)"
  using gauss_pair_two_draws [of "fresh_generator [1/4, 1/2]" 1 2]
  by (auto simp add: fresh_generator_def replay_def numeral_2_eq_2)

subsection \<open>The retry guard of expovariate\<close>

lemma expovariate_loop_exit:
  assumes "expovariate_loop n u s = Some (u', s')"
  shows "0.0000001 < u' \<and> source s' = source s \<and> gauss_next s' = gauss_next s \<and> 
         ((u' = u \<and> s' = s) \<or>
          (u \<le> 0.0000001 \<and> pos s < pos s' \<and> u' = source s (pos s' - 1)
           \<and> (\<forall>i. pos s \<le> i \<and> i < pos s' - 1 \<longrightarrow> source s i \<le> 0.0000001)))"
  using assms
proof (induction n arbitrary: u s)
  case 0
  then show ?case by (simp split: if_splits)
next
  case (Suc n)
  show ?case
  proof (cases "u \<le> 0.0000001")
    case False
    with Suc.prems show ?thesis by simp
  next
    case True
    let ?s1 = "s\<lparr>pos := Suc (pos s)\<rparr>"
    from True Suc.prems have run: "expovariate_loop n (source s (pos s)) ?s1 = Some (u', s')"
      by (simp add: random_draw_def)
    note ih = Suc.IH [OF run]
    from ih have base: "0.0000001 < u'" "source s' = source s" "gauss_next s' = gauss_next s" by simp_all
    from ih consider (stop) "u' = source s (pos s)" "s' = ?s1"
      | (more) "source s (pos s) \<le> 0.0000001" "Suc (pos s) < pos s'" "u' = source s (pos s' - 1)"
          "\<forall>i. Suc (pos s) \<le> i \<and> i < pos s' - 1 \<longrightarrow> source s i \<le> 0.0000001"
      by auto
    then show ?thesis
    proof cases
      case stop
      with True base show ?thesis by simp
    next
      case more
      have "\<forall>i. pos s \<le> i \<and> i < pos s' - 1 \<longrightarrow> source s i \<le> 0.0000001"
      proof (intro allI impI)
        fix i assume i: "pos s \<le> i \<and> i < pos s' - 1"
        show "source s i \<le> 0.0000001"
        proof (cases "i = pos s")
          case True with more(1) show ?thesis by simp
        next
          case False with i more(4) show ?thesis by (simp add: Suc_le_eq)
        qed
      qed
      with True base more show ?thesis by simp
    qed
  qed
qed

text \<open>
  The retry guard in exact arithmetic. For \<open>lambd \<noteq> 0\<close> and a source that keeps its
  contract, whenever \<^verbatim>\<open>expovariate(lambd)\<close> returns, the logarithm was applied to the
  last draw \<open>u\<close>, with \<open>1e-7 < u < 1\<close>, every draw before it was at most \<open>1e-7\<close> and
  was discarded, the logarithm did not fail, the result is the real number
  \<open>- ln u / lambd\<close>, and for \<open>lambd > 0\<close> it is strictly positive.

  Claim C7 says more: that the double the code returns is never \<open>-inf\<close> or NaN and is
  strictly positive for \<open>lambd > 0\<close>. That is a statement about the rounded quotient
  \<^verbatim>\<open>-_log(u)/lambd\<close>, which overflows for a subnormal \<open>lambd\<close> and underflows for a
  huge one. Exact reals have neither effect, so claim C7 is not stated in this model;
  the theorem below is its exact-arithmetic part only.
\<close>

theorem expovariate_log_guard:
  assumes "lambd \<noteq> 0" and "uniform01 s" and "expovariate fuel lambd s = Some (r, s')"
  shows "\<exists>u. 0.0000001 < u \<and> u < 1
            \<and> pos s < pos s' \<and> u = source s (pos s' - 1)
            \<and> (\<forall>i. pos s \<le> i \<and> i < pos s' - 1 \<longrightarrow> source s i \<le> 0.0000001)
            \<and> py_log u = Inr (ln u)
            \<and> r = Inr (- ln u / lambd)
            \<and> (0 < lambd \<longrightarrow> 0 < - ln u / lambd)"
proof -
  let ?s1 = "s\<lparr>pos := Suc (pos s)\<rparr>"
  from assms(3) obtain u where
    run: "expovariate_loop fuel (source s (pos s)) ?s1 = Some (u, s')"
    and r: "r = bindE (py_log u) (\<lambda>l. py_div (- l) lambd)"
    by (auto simp: expovariate_def random_draw_def split: option.splits)
  note ex = expovariate_loop_exit [OF run]
  from ex have big: "0.0000001 < u" by simp
  from ex have where_u: "pos s < pos s' \<and> u = source s (pos s' - 1)
     \<and> (\<forall>i. pos s \<le> i \<and> i < pos s' - 1 \<longrightarrow> source s i \<le> 0.0000001)"
  proof (elim conjE disjE)
    assume "u = source s (pos s)" "s' = ?s1"
    then show ?thesis by simp
  next
    assume a: "source s (pos s) \<le> 0.0000001" "pos ?s1 < pos s'" "u = source ?s1 (pos s' - 1)"
       "\<forall>i. pos ?s1 \<le> i \<and> i < pos s' - 1 \<longrightarrow> source ?s1 i \<le> 0.0000001"
    have "\<forall>i. pos s \<le> i \<and> i < pos s' - 1 \<longrightarrow> source s i \<le> 0.0000001"
    proof (intro allI impI)
      fix i assume i: "pos s \<le> i \<and> i < pos s' - 1"
      show "source s i \<le> 0.0000001"
      proof (cases "i = pos s")
        case True with a(1) show ?thesis by simp
      next
        case False with i a(4) show ?thesis by (simp add: Suc_le_eq)
      qed
    qed
    with a show ?thesis by simp
  qed
  from where_u assms(2) have small: "u < 1" by (simp add: uniform01_def)
  from big have pos_u: "0 < u" by simp
  have lg: "py_log u = Inr (ln u)" using pos_u by (simp add: py_log_def)
  have neg: "ln u < 0" using pos_u small by simp
  have res: "r = Inr (- ln u / lambd)" using r lg assms(1) by (simp add: py_div_def)
  have "0 < lambd \<longrightarrow> 0 < - ln u / lambd" using neg by (auto intro: divide_neg_pos)
  with big small where_u lg res show ?thesis by blast
qed

theorem expovariate_log_guard_witness:
  "expovariate (Suc 0) 2 (fresh_generator [0, 1/4]) = Some (Inr (ln 4 / 2), fresh_generator [0, 1/4]\<lparr>pos := 2\<rparr>)
   \<and> (1/4::real) = replay [0, 1/4] 1 \<and> replay [0, 1/4] 0 \<le> (0.0000001::real)"
proof -
  have run: "expovariate (Suc 0) 2 (fresh_generator [0, 1/4]) = Some (Inr (ln 4 / 2), fresh_generator [0, 1/4]\<lparr>pos := 2\<rparr>)"
    by (simp add: expovariate_def random_draw_def fresh_generator_def replay_def py_log_def py_div_def ln_div)
  have "uniform01 (fresh_generator [0, 1/4])" by (rule uniform01_fresh_generator) simp
  from expovariate_log_guard [OF _ this run] show ?thesis using run
    by (simp add: replay_def)
qed

subsection \<open>Facts about the loops of gammavariate\<close>

lemma uniform01_pos [simp]: "uniform01 (s\<lparr>pos := k\<rparr>) = uniform01 s"
  by (simp add: uniform01_def)

lemma bindE_eq_Inl:
  "bindE m f = Inl e \<longleftrightarrow> m = Inl e \<or> (\<exists>x. m = Inr x \<and> f x = Inl e)"
  by (cases m) simp_all

lemma py_not_invalid [simp]:
  "py_div x y \<noteq> Inl invalid_argument"
  "py_log x \<noteq> Inl invalid_argument"
  "py_sqrt x \<noteq> Inl invalid_argument"
  "py_pow x y \<noteq> Inl invalid_argument"
  by (simp_all add: py_div_def py_log_def py_sqrt_def py_pow_def invalid_argument_def)

lemma cheng_candidate_not_invalid:
  "bindE (py_div u1 (1 - u1)) (\<lambda>q. bindE (py_log q) (\<lambda>l. py_div l ainv)) \<noteq> Inl invalid_argument"
  by (simp add: bindE_eq_Inl)

lemma gs_candidate_not_invalid:
  "bindE (py_div (exp 1 + alpha) (exp 1)) (\<lambda>b.
             let p = b * u in
             bindE (if p \<le> 1
                    then bindE (py_div 1 alpha) (\<lambda>e. py_pow p e)
                    else bindE (py_div (b - p) alpha) (\<lambda>q.
                         bindE (py_log q) (\<lambda>l. Inr (- l)))) (\<lambda>x.
             Inr (p, x))) \<noteq> Inl invalid_argument"
  by (auto simp add: bindE_eq_Inl Let_def split: if_splits)

lemma gamma_cheng_loop_draws:
  "gamma_cheng_loop n alpha beta ainv bbb ccc s = Some (r, s') \<Longrightarrow>
     r \<noteq> Inl invalid_argument \<and> pos s < pos s' \<and> source s' = source s
     \<and> gauss_next s' = gauss_next s"
proof (induction n arbitrary: s)
  case 0
  then show ?case by simp
next
  case (Suc n)
  let ?s1 = "s\<lparr>pos := Suc (pos s)\<rparr>"
  let ?s2 = "s\<lparr>pos := Suc (Suc (pos s))\<rparr>"
  from Suc.prems cheng_candidate_not_invalid [of "source s (pos s)" ainv]
  have "gamma_cheng_loop n alpha beta ainv bbb ccc ?s1 = Some (r, s')
      \<or> gamma_cheng_loop n alpha beta ainv bbb ccc ?s2 = Some (r, s')
      \<or> (r \<noteq> Inl invalid_argument \<and> s' = ?s2)"
    by (auto simp add: random_draw_def Let_def split: if_splits sum.splits)
  then consider (retry1) "gamma_cheng_loop n alpha beta ainv bbb ccc ?s1 = Some (r, s')"
    | (retry2) "gamma_cheng_loop n alpha beta ainv bbb ccc ?s2 = Some (r, s')"
    | (leave) "r \<noteq> Inl invalid_argument" "s' = ?s2"
    by blast
  then show ?case
  proof cases
    case retry1
    from Suc.IH [OF this] show ?thesis by simp
  next
    case retry2
    from Suc.IH [OF this] show ?thesis by simp
  next
    case leave
    then show ?thesis by simp
  qed
qed

lemma gamma_gs_loop_draws:
  "gamma_gs_loop n alpha beta s = Some (r, s') \<Longrightarrow>
     r \<noteq> Inl invalid_argument \<and> pos s < pos s' \<and> source s' = source s
     \<and> gauss_next s' = gauss_next s"
proof (induction n arbitrary: s)
  case 0
  then show ?case by simp
next
  case (Suc n)
  let ?s1 = "s\<lparr>pos := Suc (pos s)\<rparr>"
  let ?s2 = "s\<lparr>pos := Suc (Suc (pos s))\<rparr>"
  from Suc.prems gs_candidate_not_invalid [of alpha "source s (pos s)"]
  have "gamma_gs_loop n alpha beta ?s2 = Some (r, s')
      \<or> (r \<noteq> Inl invalid_argument \<and> (s' = ?s1 \<or> s' = ?s2))"
    by (auto simp add: random_draw_def Let_def split: if_splits sum.splits)
  then consider (retry) "gamma_gs_loop n alpha beta ?s2 = Some (r, s')"
    | (leave) "r \<noteq> Inl invalid_argument" "s' = ?s1 \<or> s' = ?s2"
    by blast
  then show ?case
  proof cases
    case retry
    from Suc.IH [OF this] show ?thesis by simp
  next
    case leave
    then show ?thesis by auto
  qed
qed

lemma gamma_exp_loop_draws:
  "gamma_exp_loop n u s = Some (u', s') \<Longrightarrow>
     0.0000001 < u' \<and> pos s \<le> pos s' \<and> source s' = source s \<and> gauss_next s' = gauss_next s
     \<and> (u' = u \<or> (\<exists>i. u' = source s i))"
proof (induction n arbitrary: u s)
  case 0
  then show ?case by (simp split: if_splits)
next
  case (Suc n)
  show ?case
  proof (cases "u \<le> 0.0000001")
    case True
    with Suc.prems have "gamma_exp_loop n (source s (pos s)) (s\<lparr>pos := Suc (pos s)\<rparr>) = Some (u', s')"
      by (simp add: random_draw_def)
    from Suc.IH [OF this] show ?thesis by auto
  next
    case False
    with Suc.prems show ?thesis by simp
  qed
qed

lemma gammavariate_draws:
  assumes "gammavariate fuel alpha beta s = Some (r, s')"
  shows "(r = Inl invalid_argument \<longleftrightarrow> alpha \<le> 0 \<or> beta \<le> 0)
         \<and> (r = Inl invalid_argument \<longrightarrow> s' = s)
         \<and> ((\<exists>x. r = Inr x) \<longrightarrow> pos s < pos s')
         \<and> source s' = source s \<and> gauss_next s' = gauss_next s"
proof -
  consider (bad) "alpha \<le> 0 \<or> beta \<le> 0"
    | (cheng) "0 < alpha" "0 < beta" "1 < alpha"
    | (expo) "0 < beta" "alpha = 1"
    | (gs) "0 < alpha" "0 < beta" "alpha < 1" by linarith
  then show ?thesis
  proof cases
    case bad
    with assms show ?thesis by (auto simp add: gammavariate_def)
  next
    case cheng
    with assms have "gamma_cheng_loop fuel alpha beta (sqrt (2 * alpha - 1)) (alpha - LOG4)
        (alpha + sqrt (2 * alpha - 1)) s = Some (r, s')"
      by (simp add: gammavariate_def py_sqrt_def)
    from gamma_cheng_loop_draws [OF this] cheng show ?thesis by simp
  next
    case expo
    with assms obtain u where
      run: "gamma_exp_loop fuel (source s (pos s)) (s\<lparr>pos := Suc (pos s)\<rparr>) = Some (u, s')"
      and r: "r = bindE (py_log u) (\<lambda>l. Inr (- l * beta))"
      by (auto simp add: gammavariate_def random_draw_def split: option.splits)
    from gamma_exp_loop_draws [OF run] r expo show ?thesis
      by (auto simp add: py_log_def)
  next
    case gs
    with assms have "gamma_gs_loop fuel alpha beta s = Some (r, s')"
      by (simp add: gammavariate_def)
    from gamma_gs_loop_draws [OF this] gs show ?thesis by simp
  qed
qed

lemma cheng_candidate_value:
  assumes "0.0000001 < u1" and "u1 < 0.9999999" and "ainv \<noteq> 0"
  shows "bindE (py_div u1 (1 - u1)) (\<lambda>q. bindE (py_log q) (\<lambda>l. py_div l ainv)) =
           Inr (ln (u1 / (1 - u1)) / ainv)"
proof -
  have "0 < u1" and "0 < 1 - u1" using assms by simp_all
  then have "0 < u1 / (1 - u1)" by simp
  with \<open>0 < 1 - u1\<close> assms(3) show ?thesis
    by (simp add: py_div_def py_log_def)
qed

lemma cheng_log_z:
  assumes "0.0000001 < u1" and "r0 < 1"
  shows "py_log (u1 * u1 * (1 - r0)) = Inr (ln (u1 * u1 * (1 - r0)))"
proof -
  have "0 < u1" and "0 < 1 - r0" using assms by simp_all
  then have "0 < u1 * u1 * (1 - r0)" by simp
  then show ?thesis by (simp add: py_log_def)
qed

lemma gs_candidate_value:
  assumes a: "0 < alpha" "alpha < 1" and u: "0 \<le> u" "u < 1"
  shows "\<exists>p x. bindE (py_div (exp 1 + alpha) (exp 1)) (\<lambda>b.
             let p = b * u in
             bindE (if p \<le> 1
                    then bindE (py_div 1 alpha) (\<lambda>e. py_pow p e)
                    else bindE (py_div (b - p) alpha) (\<lambda>q.
                         bindE (py_log q) (\<lambda>l. Inr (- l)))) (\<lambda>x.
             Inr (p, x))) = Inr (p, x)
           \<and> 0 \<le> x \<and> (1 < p \<longrightarrow> 0 < x)"
proof -
  define b where "b = (exp 1 + alpha) / exp (1::real)"
  define p where "p = b * u"
  have e1: "1 < exp (1::real)" by simp
  have b_pos: "0 < b" using a by (simp add: b_def add_pos_pos)
  have b_eq: "b = 1 + alpha / exp 1" by (simp add: b_def add_divide_distrib)
  have p0: "0 \<le> p" using b_pos u by (simp add: p_def)
  have pb: "p < b" using b_pos u by (simp add: p_def)
  have head: "py_div (exp 1 + alpha) (exp 1) = Inr b" by (simp add: py_div_def b_def)
  show ?thesis
  proof (cases "p \<le> 1")
    case True
    have inv: "py_div 1 alpha = Inr (1 / alpha)" using a by (simp add: py_div_def)
    have "\<exists>x. py_pow p (1 / alpha) = Inr x \<and> 0 \<le> x"
      using a p0 by (cases "p = 0") (simp_all add: py_pow_def)
    then obtain x where x: "py_pow p (1 / alpha) = Inr x" "0 \<le> x" by blast
    with True head inv show ?thesis
      by (simp add: Let_def p_def [symmetric])
  next
    case False
    then have p1: "1 < p" by simp
    have "alpha / exp 1 < alpha" using a e1 by (simp add: divide_less_eq)
    then have "b - p < alpha" using p1 by (simp add: b_eq)
    then have q1: "(b - p) / alpha < 1" using a by simp
    have q0: "0 < (b - p) / alpha" using pb a by simp
    have lg: "py_log ((b - p) / alpha) = Inr (ln ((b - p) / alpha))"
      using q0 by (simp add: py_log_def)
    have dv: "py_div (b - p) alpha = Inr ((b - p) / alpha)" using a by (simp add: py_div_def)
    have "ln ((b - p) / alpha) < 0" using q0 q1 by simp
    with False head dv lg show ?thesis
      by (simp add: Let_def p_def [symmetric])
  qed
qed

lemma gamma_cheng_loop_ok:
  assumes "uniform01 s" and "0 < alpha" and "0 < beta" and "ainv \<noteq> 0"
    and "gamma_cheng_loop n alpha beta ainv bbb ccc s = Some (r, s')"
  shows "\<exists>x. r = Inr x \<and> 0 < x"
  using assms(1,5)
proof (induction n arbitrary: s)
  case 0
  then show ?case by simp
next
  case (Suc n)
  let ?u1 = "source s (pos s)"
  let ?r0 = "source s (Suc (pos s))"
  let ?s1 = "s\<lparr>pos := Suc (pos s)\<rparr>"
  let ?s2 = "s\<lparr>pos := Suc (Suc (pos s))\<rparr>"
  have unif: "uniform01 ?s1" "uniform01 ?s2" using Suc.prems(1) by simp_all
  show ?case
  proof (cases "0.0000001 < ?u1 \<and> ?u1 < 0.9999999")
    case False
    with Suc.prems(2) have "gamma_cheng_loop n alpha beta ainv bbb ccc ?s1 = Some (r, s')"
      by (auto simp add: random_draw_def)
    from Suc.IH [OF unif(1) this] show ?thesis .
  next
    case True
    then have u1: "0.0000001 < ?u1" "?u1 < 0.9999999" by simp_all
    have r0: "?r0 < 1" using Suc.prems(1) by (simp add: uniform01_def)
    note v = cheng_candidate_value [OF u1 assms(4)]
    note lz = cheng_log_z [OF u1(1) r0]
    define x where "x = alpha * exp (ln (?u1 / (1 - ?u1)) / ainv)"
    have x_pos: "0 < x * beta" using assms(2,3) by (simp add: x_def)
    from Suc.prems(2) True v lz
    have "gamma_cheng_loop n alpha beta ainv bbb ccc ?s2 = Some (r, s') \<or> r = Inr (x * beta)"
      by (auto simp add: random_draw_def Let_def x_def split: if_splits)
    then show ?thesis
    proof
      assume "gamma_cheng_loop n alpha beta ainv bbb ccc ?s2 = Some (r, s')"
      from Suc.IH [OF unif(2) this] show ?thesis .
    next
      assume "r = Inr (x * beta)"
      with x_pos show ?thesis by blast
    qed
  qed
qed

lemma gamma_gs_loop_ok:
  assumes "uniform01 s" and "0 < alpha" and "alpha < 1" and "0 < beta"
    and "gamma_gs_loop n alpha beta s = Some (r, s')"
  shows "\<exists>x. r = Inr x \<and> 0 \<le> x"
  using assms(1,5)
proof (induction n arbitrary: s)
  case 0
  then show ?case by simp
next
  case (Suc n)
  let ?u = "source s (pos s)"
  let ?s2 = "s\<lparr>pos := Suc (Suc (pos s))\<rparr>"
  have unif: "uniform01 ?s2" using Suc.prems(1) by simp
  have u: "0 \<le> ?u" "?u < 1" using Suc.prems(1) by (simp_all add: uniform01_def)
  from gs_candidate_value [OF assms(2,3) u] obtain p x where
    cand: "bindE (py_div (exp 1 + alpha) (exp 1)) (\<lambda>b.
             let p = b * ?u in
             bindE (if p \<le> 1
                    then bindE (py_div 1 alpha) (\<lambda>e. py_pow p e)
                    else bindE (py_div (b - p) alpha) (\<lambda>q.
                         bindE (py_log q) (\<lambda>l. Inr (- l)))) (\<lambda>x.
             Inr (p, x))) = Inr (p, x)"
    and x0: "0 \<le> x" and xp: "1 < p \<longrightarrow> 0 < x"
    by blast
  have pw: "1 < p \<Longrightarrow> py_pow x (alpha - 1) = Inr (x powr (alpha - 1))"
    using xp assms(3) by (simp add: py_pow_def)
  have x_beta: "0 \<le> x * beta" using x0 assms(4) by simp
  from cand pw Suc.prems(2)
  have "gamma_gs_loop n alpha beta ?s2 = Some (r, s') \<or> r = Inr (x * beta)"
    by (auto simp add: random_draw_def Let_def split: if_splits)
  then show ?case
  proof
    assume "gamma_gs_loop n alpha beta ?s2 = Some (r, s')"
    from Suc.IH [OF unif this] show ?thesis .
  next
    assume "r = Inr (x * beta)"
    with x_beta show ?thesis by blast
  qed
qed

lemma gammavariate_ok:
  assumes "uniform01 s" and "0 < alpha" and "0 < beta"
    and "gammavariate fuel alpha beta s = Some (r, s')"
  shows "\<exists>x. r = Inr x \<and> 0 \<le> x"
proof -
  consider (cheng) "1 < alpha" | (expo) "alpha = 1" | (gs) "alpha < 1" by linarith
  then show ?thesis
  proof cases
    case cheng
    then have nz: "sqrt (2 * alpha - 1) \<noteq> 0" by simp
    from cheng assms have "gamma_cheng_loop fuel alpha beta (sqrt (2 * alpha - 1)) (alpha - LOG4)
        (alpha + sqrt (2 * alpha - 1)) s = Some (r, s')"
      by (simp add: gammavariate_def py_sqrt_def)
    from gamma_cheng_loop_ok [OF assms(1,2,3) nz this] show ?thesis by auto
  next
    case expo
    with assms obtain u where
      run: "gamma_exp_loop fuel (source s (pos s)) (s\<lparr>pos := Suc (pos s)\<rparr>) = Some (u, s')"
      and r: "r = bindE (py_log u) (\<lambda>l. Inr (- l * beta))"
      by (auto simp add: gammavariate_def random_draw_def split: option.splits)
    from gamma_exp_loop_draws [OF run] assms(1) have u: "0 < u" "u < 1"
      by (auto simp add: uniform01_def)
    then have "ln u < 0" by simp
    then have "0 \<le> - ln u * beta" using assms(3) by (simp add: mult_nonpos_nonneg)
    with r u show ?thesis by (simp add: py_log_def)
  next
    case gs
    with assms have "gamma_gs_loop fuel alpha beta s = Some (r, s')"
      by (simp add: gammavariate_def)
    from gamma_gs_loop_ok [OF assms(1,2) gs assms(3) this] show ?thesis .
  qed
qed


subsection \<open>beta only scales the gamma variate\<close>

lemma gamma_cheng_loop_scale:
  "gamma_cheng_loop n alpha beta ainv bbb ccc s =
     map_option (apfst (map_sum id (\<lambda>x. x * beta))) (gamma_cheng_loop n alpha 1 ainv bbb ccc s)"
proof (induction n arbitrary: s)
  case 0
  show ?case by simp
next
  case (Suc n)
  show ?case
    by (auto simp add: Suc.IH Let_def split: prod.splits sum.splits)
qed

lemma gamma_gs_loop_scale:
  "gamma_gs_loop n alpha beta s =
     map_option (apfst (map_sum id (\<lambda>x. x * beta))) (gamma_gs_loop n alpha 1 s)"
proof (induction n arbitrary: s)
  case 0
  show ?case by simp
next
  case (Suc n)
  show ?case
    by (auto simp add: Suc.IH Let_def split: prod.splits sum.splits)
qed

text \<open>
  Claim C5. For \<open>alpha > 0\<close> and \<open>beta > 0\<close>, on every source and for every bound on
  the loops, \<^verbatim>\<open>gammavariate(alpha, beta)\<close> ends in the same generator state as
  \<^verbatim>\<open>gammavariate(alpha, 1)\<close> (the same draws, the same decisions to accept or
  retry, the same exception if any), and its value is the value of
  \<^verbatim>\<open>gammavariate(alpha, 1)\<close> times \<open>beta\<close>, in all three regimes.
\<close>

theorem gammavariate_beta_scales:
  assumes "0 < alpha" and "0 < beta"
  shows "gammavariate fuel alpha beta s =
           map_option (apfst (map_sum id (\<lambda>x. x * beta))) (gammavariate fuel alpha 1 s)"
proof -
  consider (cheng) "1 < alpha" | (expo) "alpha = 1" | (gs) "alpha < 1" by linarith
  then show ?thesis
  proof cases
    case cheng
    with assms show ?thesis
      by (simp add: gammavariate_def gamma_cheng_loop_scale [of _ _ beta] split: sum.splits)
  next
    case expo
    with assms show ?thesis
      by (simp add: gammavariate_def py_log_def split: prod.splits option.splits)
  next
    case gs
    with assms show ?thesis
      by (simp add: gammavariate_def gamma_gs_loop_scale [of _ _ beta])
  qed
qed


theorem gammavariate_beta_scales_witness:
  "gammavariate (Suc 0) 1 3 (fresh_generator [0, 1/4]) =
     Some (Inr (ln 4 * 3), fresh_generator [0, 1/4]\<lparr>pos := 2\<rparr>)"
  using gammavariate_beta_scales [of 1 3 "Suc 0" "fresh_generator [0, 1/4]"]
  by (simp add: gammavariate_def random_draw_def fresh_generator_def replay_def
      py_log_def ln_div)


subsection \<open>When gammavariate raises\<close>

text \<open>
  Claim C1. \<^verbatim>\<open>gammavariate(alpha, beta)\<close> raises the invalid-argument exception if
  and only if \<open>alpha \<le> 0\<close> or \<open>beta \<le> 0\<close>; and for \<open>alpha > 0\<close>, \<open>beta > 0\<close> and a
  source that keeps its contract, no call raises anything, whichever regime of
  \<open>alpha\<close> is taken.
\<close>

theorem gammavariate_raises_iff:
  "((\<exists>s'. gammavariate fuel alpha beta s = Some (Inl invalid_argument, s'))
      \<longleftrightarrow> alpha \<le> 0 \<or> beta \<le> 0)
   \<and> (0 < alpha \<and> 0 < beta \<and> uniform01 s \<longrightarrow>
        (\<forall>e s'. gammavariate fuel alpha beta s \<noteq> Some (Inl e, s')))"
proof (intro conjI iffI impI allI)
  assume "\<exists>s'. gammavariate fuel alpha beta s = Some (Inl invalid_argument, s')"
  then obtain s' where "gammavariate fuel alpha beta s = Some (Inl invalid_argument, s')" ..
  from gammavariate_draws [OF this] show "alpha \<le> 0 \<or> beta \<le> 0" by simp
next
  assume "alpha \<le> 0 \<or> beta \<le> 0"
  then show "\<exists>s'. gammavariate fuel alpha beta s = Some (Inl invalid_argument, s')"
    by (auto simp add: gammavariate_def)
next
  fix e s'
  assume ok: "0 < alpha \<and> 0 < beta \<and> uniform01 s"
  show "gammavariate fuel alpha beta s \<noteq> Some (Inl e, s')"
  proof
    assume "gammavariate fuel alpha beta s = Some (Inl e, s')"
    from gammavariate_ok [OF _ _ _ this] ok show False by auto
  qed
qed


theorem gammavariate_raises_iff_witness:
  "(\<exists>s'. gammavariate 0 0 1 (fresh_generator [1/4]) = Some (Inl invalid_argument, s'))
   \<and> (\<exists>s'. gammavariate 0 1 (- 1) (fresh_generator [1/4]) = Some (Inl invalid_argument, s'))
   \<and> (\<forall>e s'. gammavariate (Suc 0) 2 1 (fresh_generator [1/4]) \<noteq> Some (Inl e, s'))
   \<and> (\<forall>e s'. gammavariate (Suc 0) 1 1 (fresh_generator [1/4]) \<noteq> Some (Inl e, s'))
   \<and> (\<forall>e s'. gammavariate (Suc 0) (1/2) 1 (fresh_generator [1/4]) \<noteq> Some (Inl e, s'))"
  using gammavariate_raises_iff [of 0 0 1 "fresh_generator [1/4]"]
    gammavariate_raises_iff [of 0 1 "- 1" "fresh_generator [1/4]"]
    gammavariate_raises_iff [of "Suc 0" 2 1 "fresh_generator [1/4]"]
    gammavariate_raises_iff [of "Suc 0" 1 1 "fresh_generator [1/4]"]
    gammavariate_raises_iff [of "Suc 0" "1/2" 1 "fresh_generator [1/4]"]
    uniform01_fresh_generator [of "[1/4]"]
  by simp

subsection \<open>Draws taken before the invalid-argument exception\<close>

text \<open>
  The statement of claim C2 fails for \<^verbatim>\<open>betavariate\<close>: with \<open>alpha = 1\<close> and
  \<open>beta = 0\<close> the first inner call takes a draw and returns, and only then does the
  second inner call raise, so one draw has been consumed by the failing call.
\<close>

theorem betavariate_raises_after_draw:
  "betavariate (Suc 0) 1 0 (fresh_generator [1/4]) =
     Some (Inl invalid_argument, fresh_generator [1/4]\<lparr>pos := 1\<rparr>)
   \<and> pos (fresh_generator [1/4]\<lparr>pos := 1\<rparr>) - pos (fresh_generator [1/4]) = 1"
  by (simp add: betavariate_def gammavariate_def random_draw_def fresh_generator_def
      replay_def py_log_def ln_div)


text \<open>
  Claim C2, amended. When \<^verbatim>\<open>gammavariate\<close> raises the invalid-argument exception
  the generator is unchanged, and \<^verbatim>\<open>betavariate\<close> with \<open>alpha \<le> 0\<close> raises it with
  the generator unchanged: no draw is taken. When \<^verbatim>\<open>betavariate\<close> raises it with
  \<open>alpha > 0\<close>, then \<open>beta \<le> 0\<close>, the first inner call
  \<^verbatim>\<open>gammavariate(alpha, 1)\<close> has returned a nonzero sample and taken at least one
  draw, and the exception comes from the second inner call, which takes none.
\<close>

theorem invalid_argument_draws:
  "(gammavariate fuel alpha beta s = Some (Inl invalid_argument, s') \<longrightarrow> s' = s)
   \<and> (alpha \<le> 0 \<longrightarrow> betavariate fuel alpha beta s = Some (Inl invalid_argument, s))
   \<and> (0 < alpha \<and> betavariate fuel alpha beta s = Some (Inl invalid_argument, s') \<longrightarrow>
        beta \<le> 0 \<and> pos s < pos s'
        \<and> (\<exists>y. y \<noteq> 0 \<and> gammavariate fuel alpha 1 s = Some (Inr y, s'))
        \<and> gammavariate fuel beta 1 s' = Some (Inl invalid_argument, s'))"
proof -
  have direct: "gammavariate fuel alpha beta s = Some (Inl invalid_argument, s') \<longrightarrow> s' = s"
  proof
    assume "gammavariate fuel alpha beta s = Some (Inl invalid_argument, s')"
    from gammavariate_draws [OF this] show "s' = s" by simp
  qed
  have entry: "alpha \<le> 0 \<longrightarrow> betavariate fuel alpha beta s = Some (Inl invalid_argument, s)"
    by (simp add: betavariate_def gammavariate_def)
  have late: "0 < alpha \<and> betavariate fuel alpha beta s = Some (Inl invalid_argument, s') \<longrightarrow>
        beta \<le> 0 \<and> pos s < pos s'
        \<and> (\<exists>y. y \<noteq> 0 \<and> gammavariate fuel alpha 1 s = Some (Inr y, s'))
        \<and> gammavariate fuel beta 1 s' = Some (Inl invalid_argument, s')"
  proof
    assume a: "0 < alpha \<and> betavariate fuel alpha beta s = Some (Inl invalid_argument, s')"
    then obtain r1 s1 where first: "gammavariate fuel alpha 1 s = Some (r1, s1)"
      by (auto simp add: betavariate_def split: option.splits)
    from gammavariate_draws [OF first] a have r1: "r1 \<noteq> Inl invalid_argument" by simp
    from a first r1 obtain y where y: "r1 = Inr y" "y \<noteq> 0"
      by (cases r1) (auto simp add: betavariate_def split: if_splits)
    from a first y obtain r2 s2 where second: "gammavariate fuel beta 1 s1 = Some (r2, s2)"
      by (auto simp add: betavariate_def split: option.splits)
    from a first y second have "r2 = Inl invalid_argument \<and> s2 = s'"
      by (cases r2) (simp_all add: betavariate_def)
    then have r2: "r2 = Inl invalid_argument" and s2: "s2 = s'" by simp_all
    from gammavariate_draws [OF second] r2 have bad: "beta \<le> 0" and same: "s2 = s1"
      by simp_all
    from gammavariate_draws [OF first] y have more: "pos s < pos s1" by simp
    from same s2 have eq: "s1 = s'" by simp
    from first y eq have f': "gammavariate fuel alpha 1 s = Some (Inr y, s')" by simp
    from second r2 eq s2 have s': "gammavariate fuel beta 1 s' = Some (Inl invalid_argument, s')"
      by simp
    from more eq have m': "pos s < pos s'" by simp
    from bad m' f' y(2) s' show "beta \<le> 0 \<and> pos s < pos s'
        \<and> (\<exists>y. y \<noteq> 0 \<and> gammavariate fuel alpha 1 s = Some (Inr y, s'))
        \<and> gammavariate fuel beta 1 s' = Some (Inl invalid_argument, s')"
      by blast
  qed
  from direct entry late show ?thesis by (intro conjI)
qed


theorem invalid_argument_draws_witness:
  "gammavariate 0 0 1 (fresh_generator [1/4]) = Some (Inl invalid_argument, fresh_generator [1/4])
   \<and> betavariate 0 0 1 (fresh_generator [1/4]) = Some (Inl invalid_argument, fresh_generator [1/4])
   \<and> pos (fresh_generator [1/4]) < pos (fresh_generator [1/4]\<lparr>pos := 1\<rparr>)
   \<and> (\<exists>y. y \<noteq> 0 \<and> gammavariate (Suc 0) 1 1 (fresh_generator [1/4]) =
             Some (Inr y, fresh_generator [1/4]\<lparr>pos := 1\<rparr>))"
proof -
  have run: "betavariate (Suc 0) 1 0 (fresh_generator [1/4]) =
     Some (Inl invalid_argument, fresh_generator [1/4]\<lparr>pos := 1\<rparr>)"
    by (simp add: betavariate_def gammavariate_def random_draw_def fresh_generator_def
      replay_def py_log_def ln_div)
  have g: "gammavariate 0 0 1 (fresh_generator [1/4]) = Some (Inl invalid_argument, fresh_generator [1/4])"
    by (simp add: gammavariate_def)
  from invalid_argument_draws [of 0 0 1 "fresh_generator [1/4]" "fresh_generator [1/4]"] g
    invalid_argument_draws [of "Suc 0" 1 0 "fresh_generator [1/4]" "fresh_generator [1/4]\<lparr>pos := 1\<rparr>"] run
  show ?thesis by simp
qed

subsection \<open>The range of betavariate\<close>

text \<open>
  The statement of claim C4 fails: a source within its contract makes
  \<^verbatim>\<open>betavariate(1, 0.5)\<close> return exactly \<open>1\<close>. The first inner sample is \<open>ln 4\<close>;
  the second inner call draws \<open>0\<close>, so its sample is \<open>0\<close>.
\<close>

theorem betavariate_returns_one:
  "uniform01 (fresh_generator [1/4, 0, 1/2])
   \<and> betavariate (Suc 0) 1 (1/2) (fresh_generator [1/4, 0, 1/2]) =
       Some (Inr 1, fresh_generator [1/4, 0, 1/2]\<lparr>pos := 3\<rparr>)"
proof
  show "uniform01 (fresh_generator [1/4, 0, 1/2])"
    by (rule uniform01_fresh_generator) simp
  have first: "gammavariate (Suc 0) 1 1 (fresh_generator [1/4, 0, 1/2]) =
      Some (Inr (ln 4), fresh_generator [1/4, 0, 1/2]\<lparr>pos := Suc 0\<rparr>)"
    by (simp add: gammavariate_def random_draw_def fresh_generator_def replay_def
        py_log_def ln_div)
  have second: "gammavariate (Suc 0) (1/2) 1 (fresh_generator [1/4, 0, 1/2]\<lparr>pos := Suc 0\<rparr>) =
      Some (Inr 0, fresh_generator [1/4, 0, 1/2]\<lparr>pos := 3\<rparr>)"
    by (simp add: gammavariate_def random_draw_def fresh_generator_def replay_def
        py_div_def py_pow_def Let_def numeral_3_eq_3)
  show "betavariate (Suc 0) 1 (1/2) (fresh_generator [1/4, 0, 1/2]) =
       Some (Inr 1, fresh_generator [1/4, 0, 1/2]\<lparr>pos := 3\<rparr>)"
    by (simp add: betavariate_def first second py_div_def)
qed


text \<open>
  Claim C4, amended. For \<open>alpha > 0\<close>, \<open>beta > 0\<close> and a source that keeps its
  contract, whenever \<^verbatim>\<open>betavariate(alpha, beta)\<close> returns, its result lies in the
  closed interval \<open>[0, 1]\<close> (the run above attains \<open>1\<close>), and it is \<open>0\<close> when the
  first inner sample \<^verbatim>\<open>gammavariate(alpha, 1)\<close> is \<open>0\<close>.
\<close>

theorem betavariate_closed_range:
  assumes "0 < alpha" and "0 < beta" and "uniform01 s"
    and "betavariate fuel alpha beta s = Some (r, s')"
  shows "\<exists>v y s1. r = Inr v \<and> 0 \<le> v \<and> v \<le> 1
           \<and> gammavariate fuel alpha 1 s = Some (Inr y, s1)
           \<and> (y = 0 \<longrightarrow> v = 0)"
proof -
  from assms(4) obtain r1 s1 where first: "gammavariate fuel alpha 1 s = Some (r1, s1)"
    by (auto simp add: betavariate_def split: option.splits)
  from gammavariate_ok [OF assms(3,1) _ first] obtain y where y: "r1 = Inr y" "0 \<le> y"
    by auto
  from first y have f: "gammavariate fuel alpha 1 s = Some (Inr y, s1)" by simp
  from gammavariate_draws [OF first] assms(3) have u1: "uniform01 s1"
    by (simp add: uniform01_def)
  show ?thesis
  proof (cases "y = 0")
    case True
    with assms(4) f have r: "r = Inr 0" by (simp add: betavariate_def)
    show ?thesis
      apply (rule exI [of _ 0])
      apply (rule exI [of _ y])
      apply (rule exI [of _ s1])
      using r f by simp
  next
    case False
    with assms(4) f obtain r2 s2 where
      second: "gammavariate fuel beta 1 s1 = Some (r2, s2)"
      by (auto simp add: betavariate_def split: option.splits)
    from gammavariate_ok [OF u1 assms(2) _ second] obtain g where g: "r2 = Inr g" "0 \<le> g"
      by auto
    from False y g have sum_pos: "0 < y + g" by simp
    from assms(4) f False second g sum_pos
    have r: "r = Inr (y / (y + g))"
      by (simp add: betavariate_def py_div_def)
    have lo: "0 \<le> y / (y + g)" using y sum_pos by simp
    have hi: "y / (y + g) \<le> 1" using g sum_pos by simp
    show ?thesis
      apply (rule exI [of _ "y / (y + g)"])
      apply (rule exI [of _ y])
      apply (rule exI [of _ s1])
      using r f lo hi False by simp
  qed
qed

theorem betavariate_closed_range_witness:
  "betavariate (Suc 0) (1/2) 2 (fresh_generator [0, 1/2]) =
     Some (Inr 0, fresh_generator [0, 1/2]\<lparr>pos := 2\<rparr>)
   \<and> (\<exists>v y s1. (Inr 0 :: real result) = Inr v \<and> 0 \<le> v \<and> v \<le> 1
         \<and> gammavariate (Suc 0) (1/2) 1 (fresh_generator [0, 1/2]) = Some (Inr y, s1)
         \<and> (y = 0 \<longrightarrow> v = 0))"
proof -
  have u: "uniform01 (fresh_generator [0, 1/2])"
    by (rule uniform01_fresh_generator) simp
  have first: "gammavariate (Suc 0) (1/2) 1 (fresh_generator [0, 1/2]) =
      Some (Inr 0, fresh_generator [0, 1/2]\<lparr>pos := 2\<rparr>)"
    by (simp add: gammavariate_def random_draw_def fresh_generator_def replay_def
        py_div_def py_pow_def Let_def numeral_2_eq_2)
  have run: "betavariate (Suc 0) (1/2) 2 (fresh_generator [0, 1/2]) =
       Some (Inr 0, fresh_generator [0, 1/2]\<lparr>pos := 2\<rparr>)"
    by (simp add: betavariate_def first)
  have a: "(0::real) < 1/2" and b: "(0::real) < 2" by simp_all
  from run betavariate_closed_range [OF a b u run] show ?thesis by (rule conjI)
qed

end
